theory Spec2Isabelle
  imports Complex_Main
begin

section \<open>Data model: points, the object store, errors\<close>

text \<open>
  A Python \<open>Point\<close> is a mutable object with two float fields. Coordinates are modelled
  as real numbers (exact arithmetic: no rounding, no NaN or infinity, no float range, so
  the OverflowError that \<open>** 2\<close> raises on a float beyond about 1.3e154 has no counterpart).
  The methods keep their names without the leading underscore.
  Point objects live in a store; a reference is an index into the store and creating a
  Point appends a cell. Two list entries holding the same reference are the same object,
  so a mutation through one is seen through the other.
\<close>

type_synonym ref = nat

record Point =
  px :: real
  py :: real

type_synonym store = "Point list"

datatype error = IndexError

text \<open>Python list subscript: a negative index counts from the end, anything outside
  \<open>-len .. len - 1\<close> raises IndexError.\<close>

definition subscript :: "'a list \<Rightarrow> int \<Rightarrow> error + 'a" where
  "subscript xs i =
     (if 0 \<le> i \<and> i < int (length xs) then Inr (xs ! nat i)
      else if - int (length xs) \<le> i \<and> i < 0 then Inr (xs ! nat (int (length xs) + i))
      else Inl IndexError)"

text \<open>\<open>Point(a, b)\<close>: a fresh object.\<close>

definition new_Point :: "store \<Rightarrow> real \<Rightarrow> real \<Rightarrow> ref \<times> store" where
  "new_Point h a b = (length h, h @ [\<lparr>px = a, py = b\<rparr>])"

section \<open>Geometric helpers of class Symmetry\<close>

text \<open>The helpers that only read their arguments take the Point values.\<close>

definition CLOSE_ENOUGH :: real where
  "CLOSE_ENOUGH = 5"

definition get_distance :: "Point \<Rightarrow> Point \<Rightarrow> real" where
  "get_distance p1 p2 = (((px p2 - px p1) ^ 2) + ((py p2 - py p1) ^ 2)) powr 0.5"

text \<open>\<open>math.atan2\<close>, \<open>math.degrees\<close> and \<open>math.radians\<close> on real numbers.\<close>

definition atan2 :: "real \<Rightarrow> real \<Rightarrow> real" where
  "atan2 b a =
     (if 0 < a then arctan (b / a)
      else if a < 0 then (if 0 \<le> b then arctan (b / a) + pi else arctan (b / a) - pi)
      else if 0 < b then pi / 2
      else if b < 0 then - (pi / 2)
      else 0)"

definition degrees :: "real \<Rightarrow> real" where
  "degrees r = r * 180 / pi"

definition radians :: "real \<Rightarrow> real" where
  "radians d = d * pi / 180"

definition get_angle :: "Point \<Rightarrow> Point \<Rightarrow> real" where
  "get_angle p1 p2 = - degrees (atan2 (py p2 - py p1) (px p2 - px p1))"

definition get_midpoint :: "store \<Rightarrow> ref \<Rightarrow> ref \<Rightarrow> ref \<times> store" where
  "get_midpoint h p1 p2 =
     new_Point h ((px (h ! p1) + px (h ! p2)) / 2) ((py (h ! p1) + py (h ! p2)) / 2)"

definition points_really_close :: "Point \<Rightarrow> Point \<Rightarrow> bool" where
  "points_really_close p1 p2 \<longleftrightarrow> get_distance p1 p2 < CLOSE_ENOUGH"

text \<open>\<open>_translate_shape\<close> and \<open>_rotate_point\<close> assign to the fields of the objects.\<close>

definition shifted :: "real \<Rightarrow> real \<Rightarrow> Point \<Rightarrow> Point" where
  "shifted dx dy p = \<lparr>px = px p - dx, py = py p - dy\<rparr>"

primrec translate_shape :: "store \<Rightarrow> ref list \<Rightarrow> real \<Rightarrow> real \<Rightarrow> store" where
  "translate_shape h [] dx dy = h"
| "translate_shape h (pc # points) dx dy =
     translate_shape (h[pc := shifted dx dy (h ! pc)]) points dx dy"

definition rotated :: "real \<Rightarrow> Point \<Rightarrow> Point" where
  "rotated angle p =
     (let a = radians angle;
          new_x = px p * cos a - py p * sin a;
          new_y = px p * sin a + py p * cos a
      in \<lparr>px = new_x, py = new_y\<rparr>)"

definition rotate_point :: "store \<Rightarrow> ref \<Rightarrow> real \<Rightarrow> store" where
  "rotate_point h p angle = h[p := rotated angle (h ! p)]"

text \<open>The loop \<open>for p in points_copy: self._rotate_point(p, angle)\<close>.\<close>

primrec rotate_shape :: "store \<Rightarrow> ref list \<Rightarrow> real \<Rightarrow> store" where
  "rotate_shape h [] angle = h"
| "rotate_shape h (p # points) angle = rotate_shape (rotate_point h p angle) points angle"

section \<open>Doubling the points\<close>

text \<open>
  The loop of \<open>_double_points\<close>: \<open>previous_point\<close> is None or a Point object, and a Point
  object is always truthy.
\<close>

fun double_loop :: "store \<Rightarrow> ref list \<Rightarrow> ref option \<Rightarrow> ref list \<Rightarrow> ref option \<times> ref list \<times> store" where
  "double_loop h [] previous_point doubled_points = (previous_point, doubled_points, h)"
| "double_loop h (point # rest) previous_point doubled_points =
     (case previous_point of
        None \<Rightarrow> double_loop h rest (Some point) (doubled_points @ [point])
      | Some q \<Rightarrow>
          (case get_midpoint h q point of
             (m, h') \<Rightarrow> double_loop h' rest (Some point) (doubled_points @ [m, point])))"

definition double_points :: "store \<Rightarrow> ref list \<Rightarrow> error + (ref list \<times> store)" where
  "double_points h points =
     (case double_loop h points None [] of
        (previous_point, doubled_points, h') \<Rightarrow>
          (case previous_point of
             None \<Rightarrow> Inr (doubled_points, h')
           | Some q \<Rightarrow>
               (case subscript points 0 of
                  Inl e \<Rightarrow> Inl e
                | Inr p0 \<Rightarrow>
                    (case get_midpoint h' q p0 of
                       (m, h'') \<Rightarrow> Inr (doubled_points @ [m], h'')))))"

section \<open>Deep copy\<close>

text \<open>
  \<open>copy.deepcopy\<close> of a list of Points: every distinct object is copied once into a fresh
  object with the same fields; the memo maps each object already copied to its copy, so
  an object that occurs twice in the list occurs twice in the copy.
\<close>

fun deepcopy_memo :: "store \<Rightarrow> (ref \<times> ref) list \<Rightarrow> ref list \<Rightarrow> ref list \<times> store" where
  "deepcopy_memo h memo [] = ([], h)"
| "deepcopy_memo h memo (r # rs) =
     (case map_of memo r of
        Some c \<Rightarrow> (case deepcopy_memo h memo rs of (cs, h') \<Rightarrow> (c # cs, h'))
      | None \<Rightarrow>
          (case new_Point h (px (h ! r)) (py (h ! r)) of
             (c, h1) \<Rightarrow>
               (case deepcopy_memo h1 ((r, c) # memo) rs of (cs, h') \<Rightarrow> (c # cs, h'))))"

definition deepcopy :: "store \<Rightarrow> ref list \<Rightarrow> ref list \<times> store" where
  "deepcopy h rs = deepcopy_memo h [] rs"

section \<open>The detector\<close>

text \<open>
  The four optional callbacks are observers: the model keeps which of them are installed
  and records every call in a trace, the list callbacks with the coordinates they see at
  the time of the call.
\<close>

record callbacks =
  original_callback :: bool
  translate_callback :: bool
  rotate_callback :: bool
  symmetry_callback :: bool

datatype event =
    Original_call nat "Point list"
  | Translate_call nat "Point list"
  | Rotate_call nat "Point list"
  | Symmetry_call nat ref ref

record state =
  heap :: store
  trace :: "event list"
  symmetries :: "(ref \<times> ref) list"

text \<open>
  The inner loop \<open>for mirror_index in range(half_length)\<close>. The two temporary Points
  \<open>Point(p.x, abs(p.y))\<close> are only read by the comparison, so they are values and not
  objects of the store.
\<close>

definition abs_y :: "Point \<Rightarrow> Point" where
  "abs_y p = \<lparr>px = px p, py = \<bar>py p\<bar>\<rparr>"

fun mirror_loop :: "store \<Rightarrow> ref list \<Rightarrow> nat \<Rightarrow> bool \<Rightarrow> nat list \<Rightarrow> error + bool" where
  "mirror_loop h points_copy index symmetrical [] = Inr symmetrical"
| "mirror_loop h points_copy index symmetrical (mirror_index # rest) =
     (case subscript points_copy (int index - int mirror_index) of
        Inl e \<Rightarrow> Inl e
      | Inr mirror1_point \<Rightarrow>
          (case subscript points_copy (int index + int mirror_index) of
             Inl e \<Rightarrow> Inl e
           | Inr mirror2_point \<Rightarrow>
               mirror_loop h points_copy index
                 (if \<not> points_really_close (abs_y (h ! mirror1_point)) (abs_y (h ! mirror2_point))
                  then False else symmetrical)
                 rest))"

text \<open>
  The first part of the body of \<open>for index in range(half_length)\<close>: the working copy,
  translated and rotated. It returns the copy, the store and the trace.
\<close>

definition prepare_shape ::
  "callbacks \<Rightarrow> ref list \<Rightarrow> nat \<Rightarrow> store \<Rightarrow> event list \<Rightarrow> nat \<Rightarrow> error + (ref list \<times> store \<times> event list)" where
  "prepare_shape cb points half_length h tr index =
     (let tr1 = (if original_callback cb then tr @ [Original_call index (map ((!) h) points)] else tr)
      in case deepcopy h points of
        (points_copy, h1) \<Rightarrow>
          (case subscript points_copy (int index) of
             Inl e \<Rightarrow> Inl e
           | Inr pf \<Rightarrow>
               (let h2 = translate_shape h1 points_copy (px (h1 ! pf)) (py (h1 ! pf));
                    tr2 = (if translate_callback cb
                           then tr1 @ [Translate_call index (map ((!) h2) points_copy)] else tr1);
                    opposite_index = index + half_length
                in case subscript points_copy (int opposite_index) of
                     Inl e \<Rightarrow> Inl e
                   | Inr po \<Rightarrow>
                       (let angle = get_angle (h2 ! pf) (h2 ! po);
                            h3 = rotate_shape h2 points_copy angle;
                            tr3 = (if rotate_callback cb
                                   then tr2 @ [Rotate_call index (map ((!) h3) points_copy)] else tr2)
                        in Inr (points_copy, h3, tr3)))))"

text \<open>The whole body for one candidate index.\<close>

definition candidate :: "callbacks \<Rightarrow> ref list \<Rightarrow> nat \<Rightarrow> state \<Rightarrow> nat \<Rightarrow> error + state" where
  "candidate cb points half_length st index =
     (case prepare_shape cb points half_length (heap st) (trace st) index of
        Inl e \<Rightarrow> Inl e
      | Inr (points_copy, h3, tr3) \<Rightarrow>
          (case mirror_loop h3 points_copy index True [0..<half_length] of
             Inl e \<Rightarrow> Inl e
           | Inr symmetrical \<Rightarrow>
               if symmetrical then
                 (case subscript points (int index) of
                    Inl e \<Rightarrow> Inl e
                  | Inr symmetry_point1 \<Rightarrow>
                      (case subscript points (int (index + half_length)) of
                         Inl e \<Rightarrow> Inl e
                       | Inr symmetry_point2 \<Rightarrow>
                           Inr \<lparr>heap = h3,
                                trace = (if symmetry_callback cb
                                         then tr3 @ [Symmetry_call index symmetry_point1 symmetry_point2]
                                         else tr3),
                                symmetries = symmetries st @ [(symmetry_point1, symmetry_point2)]\<rparr>))
               else Inr \<lparr>heap = h3, trace = tr3, symmetries = symmetries st\<rparr>))"

fun candidates_loop :: "callbacks \<Rightarrow> ref list \<Rightarrow> nat \<Rightarrow> state \<Rightarrow> nat list \<Rightarrow> error + state" where
  "candidates_loop cb points half_length st [] = Inr st"
| "candidates_loop cb points half_length st (index # rest) =
     (case candidate cb points half_length st index of
        Inl e \<Rightarrow> Inl e
      | Inr st' \<Rightarrow> candidates_loop cb points half_length st' rest)"

text \<open>
  \<open>get_lines_of_symmetry\<close>, run on the store \<open>h\<close> with \<open>self._points = points\<close>. The result
  holds the returned list of axes, the calls made to the observers and the final store.
\<close>

definition get_lines_of_symmetry :: "callbacks \<Rightarrow> store \<Rightarrow> ref list \<Rightarrow> error + state" where
  "get_lines_of_symmetry cb h points0 =
     (case double_points h points0 of
        Inl e \<Rightarrow> Inl e
      | Inr (points, h1) \<Rightarrow>
          (let half_length = length points div 2
           in candidates_loop cb points half_length
                \<lparr>heap = h1, trace = [], symmetries = []\<rparr> [0..<half_length]))"

section \<open>Closed forms used in the proofs\<close>

text \<open>The value of the Point that \<open>_get_midpoint\<close> creates.\<close>

definition midval :: "Point \<Rightarrow> Point \<Rightarrow> Point" where
  "midval a b = \<lparr>px = (px a + px b) / 2, py = (py a + py b) / 2\<rparr>"

text \<open>
  What the loop of \<open>_double_points\<close> has appended after a first point: fresh midpoint
  objects, numbered from \<open>k\<close>, alternating with the remaining points.
\<close>

fun weave :: "nat \<Rightarrow> ref list \<Rightarrow> ref list" where
  "weave k [] = []"
| "weave k (p # ps) = k # p # weave (Suc k) ps"

fun mid_values :: "store \<Rightarrow> ref \<Rightarrow> ref list \<Rightarrow> Point list" where
  "mid_values h q [] = []"
| "mid_values h q (p # ps) = midval (h ! q) (h ! p) # mid_values h p ps"

text \<open>
  The doubled list by index: the original objects at the even places, the new objects
  \<open>k, k + 1, ...\<close> at the odd places; and the cells of the new objects.
\<close>

definition doubled_refs :: "nat \<Rightarrow> ref list \<Rightarrow> ref list" where
  "doubled_refs k ps = map (\<lambda>j. if even j then ps ! (j div 2) else k + j div 2) [0..<2 * length ps]"

definition mid_cells :: "store \<Rightarrow> ref list \<Rightarrow> Point list" where
  "mid_cells h ps =
     map (\<lambda>i. midval (h ! (ps ! i)) (h ! (ps ! (Suc i mod length ps)))) [0..<length ps]"

text \<open>Assigning \<open>f\<close> of its fields to every object of a list, in order.\<close>

primrec update_each :: "(Point \<Rightarrow> Point) \<Rightarrow> store \<Rightarrow> ref list \<Rightarrow> store" where
  "update_each f h [] = h"
| "update_each f h (r # rs) = update_each f (h[r := f (h ! r)]) rs"

text \<open>
  The memo of a deep copy is sound for the objects below \<open>n\<close>: it maps them to distinct
  objects above \<open>n\<close> that hold the same fields.
\<close>

definition memo_ok :: "nat \<Rightarrow> store \<Rightarrow> (ref \<times> ref) list \<Rightarrow> bool" where
  "memo_ok n h memo \<longleftrightarrow>
     n \<le> length h \<and>
     (\<forall>r c. map_of memo r = Some c \<longrightarrow> r < n \<and> n \<le> c \<and> c < length h \<and> h ! c = h ! r) \<and>
     inj_on (map_of memo) (dom (map_of memo))"

text \<open>
  The coordinates of the working copy, place by place. An object that occurs \<open>k\<close> times in
  the list is translated and rotated \<open>k\<close> times, since both loops run over the list;
  \<open>mults\<close> gives the number of occurrences for every place.
\<close>

definition mults :: "ref list \<Rightarrow> nat list" where
  "mults d = map (count_list d) d"

definition translated_values :: "Point list \<Rightarrow> nat list \<Rightarrow> nat \<Rightarrow> Point list" where
  "translated_values vs ms i =
     map (\<lambda>k. (shifted (px (vs ! i)) (py (vs ! i)) ^^ (ms ! k)) (vs ! k)) [0..<length vs]"

definition work_values :: "Point list \<Rightarrow> nat list \<Rightarrow> nat \<Rightarrow> nat \<Rightarrow> Point list" where
  "work_values vs ms half i =
     (let ts = translated_values vs ms i;
          angle = get_angle (ts ! i) (ts ! (i + half))
      in map (\<lambda>k. (rotated angle ^^ (ms ! k)) (ts ! k)) [0..<length vs])"

text \<open>The mirror check on the coordinates of a working copy.\<close>

definition mirror_ok :: "Point list \<Rightarrow> nat \<Rightarrow> nat \<Rightarrow> bool" where
  "mirror_ok ws half i \<longleftrightarrow>
     (\<forall>m<half. points_really_close
                 (abs_y (ws ! nat ((int i - int m) mod int (length ws))))
                 (abs_y (ws ! (i + m))))"

definition verdict :: "Point list \<Rightarrow> nat list \<Rightarrow> nat \<Rightarrow> nat \<Rightarrow> bool" where
  "verdict vs ms half i = mirror_ok (work_values vs ms half i) half i"

text \<open>The observer calls made while the working copy of candidate \<open>i\<close> is prepared.\<close>

definition prepare_events :: "callbacks \<Rightarrow> Point list \<Rightarrow> nat list \<Rightarrow> nat \<Rightarrow> nat \<Rightarrow> event list" where
  "prepare_events cb vs ms half i =
     (if original_callback cb then [Original_call i vs] else []) @
     (if translate_callback cb then [Translate_call i (translated_values vs ms i)] else []) @
     (if rotate_callback cb then [Rotate_call i (work_values vs ms half i)] else [])"

text \<open>All observer calls of candidate \<open>i\<close>: those of the preparation, then the symmetry call.\<close>

definition candidate_events ::
  "callbacks \<Rightarrow> ref list \<Rightarrow> Point list \<Rightarrow> nat \<Rightarrow> nat \<Rightarrow> event list" where
  "candidate_events cb d vs half i =
     prepare_events cb vs (mults d) half i @
     (if verdict vs (mults d) half i \<and> symmetry_callback cb
      then [Symmetry_call i (d ! i) (d ! (i + half))] else [])"

text \<open>The places a pass of the mirror loop reads are inside the list.\<close>

definition in_range :: "'a list \<Rightarrow> nat \<Rightarrow> nat \<Rightarrow> bool" where
  "in_range xs i m \<longleftrightarrow> - int (length xs) \<le> int i - int m \<and> int i + int m < int (length xs)"

section \<open>Confirmed candidates\<close>

text \<open>
  The verdict of the body of the outer loop for one candidate, by the same code as
  \<open>get_lines_of_symmetry\<close> runs (with no observer installed): the working copy is made,
  translated and rotated, and the mirror loop returns True.
\<close>

definition no_callbacks :: callbacks where
  "no_callbacks = \<lparr>original_callback = False, translate_callback = False,
                    rotate_callback = False, symmetry_callback = False\<rparr>"

definition accepted :: "store \<Rightarrow> ref list \<Rightarrow> nat \<Rightarrow> bool" where
  "accepted h points index =
     (case prepare_shape no_callbacks points (length points div 2) h [] index of
        Inl e \<Rightarrow> False
      | Inr (points_copy, h3, tr) \<Rightarrow>
          mirror_loop h3 points_copy index True [0..<length points div 2] = Inr True)"

fun is_symmetry_call :: "event \<Rightarrow> bool" where
  "is_symmetry_call (Symmetry_call i p q) = True"
| "is_symmetry_call e = False"

section \<open>A polygon given by its coordinates\<close>

text \<open>
  The detector as \<open>_init_view\<close> of main.py calls it: on a list of new Point objects, one
  for every vertex. The axes are read back from the store as coordinates.
\<close>

definition detect :: "callbacks \<Rightarrow> Point list \<Rightarrow> error + (Point \<times> Point) list" where
  "detect cb polygon =
     (case get_lines_of_symmetry cb polygon [0..<length polygon] of
        Inl e \<Rightarrow> Inl e
      | Inr st \<Rightarrow> Inr (map (\<lambda>(p, q). (heap st ! p, heap st ! q)) (symmetries st)))"



text \<open>The coordinates of the doubled list of such a polygon.\<close>

definition doubled_values :: "Point list \<Rightarrow> Point list" where
  "doubled_values vs =
     map (\<lambda>j. if even j then vs ! (j div 2)
               else midval (vs ! (j div 2)) (vs ! (Suc (j div 2) mod length vs)))
       [0..<2 * length vs]"

text \<open>The shape \<open>"Square"\<close> of \<open>ShapeCanvas.SHAPES\<close>.\<close>

definition Square :: "Point list" where
  "Square = [\<lparr>px = 0, py = 0\<rparr>, \<lparr>px = 0, py = 100\<rparr>, \<lparr>px = 100, py = 100\<rparr>, \<lparr>px = 100, py = 0\<rparr>]"

section \<open>The doubling step\<close>

lemma get_midpoint_eq: "get_midpoint h p1 p2 = (length h, h @ [midval (h ! p1) (h ! p2)])"
  by (simp add: get_midpoint_def new_Point_def midval_def)

lemma mid_values_append:
  "\<forall>r\<in>set (q # rest). r < length h \<Longrightarrow> mid_values (h @ xs) q rest = mid_values h q rest"
  by (induction rest arbitrary: q) (simp_all add: nth_append)

lemma double_loop_Some:
  "\<forall>r\<in>set (q # rest). r < length h \<Longrightarrow>
   double_loop h rest (Some q) acc =
     (Some (last (q # rest)), acc @ weave (length h) rest, h @ mid_values h q rest)"
proof (induction rest arbitrary: h q acc)
  case Nil
  then show ?case by simp
next
  case (Cons p rest)
  have valid: "\<forall>r\<in>set (p # rest). r < length (h @ [midval (h ! q) (h ! p)])"
    using Cons.prems by auto
  have mv: "mid_values (h @ [midval (h ! q) (h ! p)]) p rest = mid_values h p rest"
    using Cons.prems by (intro mid_values_append) auto
  show ?case
    using Cons.IH [OF valid] mv by (simp add: get_midpoint_eq)
qed

lemma length_weave: "length (weave k ps) = 2 * length ps"
  by (induction ps arbitrary: k) simp_all

lemma length_mid_values: "length (mid_values h q ps) = length ps"
  by (induction ps arbitrary: q) simp_all

lemma weave_even: "i < length ps \<Longrightarrow> weave k ps ! (2 * i) = k + i"
proof (induction ps arbitrary: k i)
  case Nil then show ?case by simp
next
  case (Cons p ps)
  then show ?case by (cases i) simp_all
qed

lemma weave_odd: "i < length ps \<Longrightarrow> weave k ps ! Suc (2 * i) = ps ! i"
proof (induction ps arbitrary: k i)
  case Nil then show ?case by simp
next
  case (Cons p ps)
  then show ?case by (cases i) simp_all
qed

lemma mid_values_nth:
  "i < length ps \<Longrightarrow> mid_values h q ps ! i = midval (h ! ((q # ps) ! i)) (h ! (ps ! i))"
proof (induction ps arbitrary: q i)
  case Nil then show ?case by simp
next
  case (Cons p ps)
  then show ?case by (cases i) simp_all
qed

lemma length_doubled_refs: "length (doubled_refs k ps) = 2 * length ps"
  by (simp add: doubled_refs_def)

lemma doubled_refs_nth:
  "j < 2 * length ps \<Longrightarrow>
   doubled_refs k ps ! j = (if even j then ps ! (j div 2) else k + j div 2)"
  unfolding doubled_refs_def by (subst nth_map) simp_all

lemma length_mid_cells: "length (mid_cells h ps) = length ps"
  by (simp add: mid_cells_def)

lemma mid_cells_nth:
  "i < length ps \<Longrightarrow>
   mid_cells h ps ! i = midval (h ! (ps ! i)) (h ! (ps ! (Suc i mod length ps)))"
  unfolding mid_cells_def by (subst nth_map) simp_all

lemma weave_nth:
  "j < 2 * length ps \<Longrightarrow> weave k ps ! j = (if even j then k + j div 2 else ps ! (j div 2))"
proof (cases "even j")
  case True
  assume "j < 2 * length ps"
  with True show ?thesis using weave_even [of "j div 2" ps k] by auto
next
  case False
  assume "j < 2 * length ps"
  with False show ?thesis using weave_odd [of "j div 2" ps k] by (auto elim!: oddE)
qed

lemma doubled_refs_weave:
  "p # weave k rest @ [k + length rest] = doubled_refs k (p # rest)"
proof (rule nth_equalityI)
  show "length (p # weave k rest @ [k + length rest]) = length (doubled_refs k (p # rest))"
    by (simp add: length_doubled_refs length_weave)
next
  fix j assume "j < length (p # weave k rest @ [k + length rest])"
  then have j: "j < 2 * length rest + 2" by (simp add: length_weave)
  show "(p # weave k rest @ [k + length rest]) ! j = doubled_refs k (p # rest) ! j"
  proof (cases j)
    case 0
    then show ?thesis by (simp add: doubled_refs_nth)
  next
    case (Suc j')
    show ?thesis
    proof (cases "j' < 2 * length rest")
      case True
      then show ?thesis using Suc j
        by (simp add: doubled_refs_nth nth_append length_weave weave_nth)
    next
      case False
      then have "j' = 2 * length rest" using Suc j by simp
      then show ?thesis using Suc
        by (simp add: doubled_refs_nth nth_append length_weave)
    qed
  qed
qed

lemma mid_cells_values:
  "mid_values h p rest @ [midval (h ! last (p # rest)) (h ! p)] = mid_cells h (p # rest)"
proof (rule nth_equalityI)
  show "length (mid_values h p rest @ [midval (h ! last (p # rest)) (h ! p)]) = length (mid_cells h (p # rest))"
    by (simp add: length_mid_cells length_mid_values)
next
  fix i assume "i < length (mid_values h p rest @ [midval (h ! last (p # rest)) (h ! p)])"
  then have i: "i < Suc (length rest)" by (simp add: length_mid_values)
  show "(mid_values h p rest @ [midval (h ! last (p # rest)) (h ! p)]) ! i = mid_cells h (p # rest) ! i"
  proof (cases "i < length rest")
    case True
    then show ?thesis
      by (simp add: mid_cells_nth nth_append length_mid_values mid_values_nth)
  next
    case False
    then have "i = length rest" using i by simp
    then show ?thesis
      by (simp add: mid_cells_nth nth_append length_mid_values last_conv_nth)
  qed
qed

lemma double_points_eq:
  assumes "\<forall>r\<in>set ps. r < length h"
  shows "double_points h ps = Inr (doubled_refs (length h) ps, h @ mid_cells h ps)"
proof (cases ps)
  case Nil
  then show ?thesis by (simp add: double_points_def doubled_refs_def mid_cells_def)
next
  case (Cons p rest)
  have loop: "double_loop h rest (Some p) [p] =
      (Some (last (p # rest)), [p] @ weave (length h) rest, h @ mid_values h p rest)"
    using assms Cons by (intro double_loop_Some) simp
  have lastv: "last (p # rest) < length h" using assms Cons
    by (metis last_in_set list.distinct(1))
  have pv: "p < length h" using assms Cons by simp
  show ?thesis
    using loop lastv pv doubled_refs_weave [of p "length h" rest] mid_cells_values [of h p rest]
    by (simp add: Cons double_points_def subscript_def get_midpoint_eq nth_append
        length_mid_values del: last.simps)
qed


section \<open>The tolerance test\<close>

lemma get_distance_sqrt:
  "get_distance p1 p2 = sqrt ((px p2 - px p1)\<^sup>2 + (py p2 - py p1)\<^sup>2)"
proof -
  have "(0.5::real) = 1 / 2" by simp
  then show ?thesis
    unfolding get_distance_def by (simp only: powr_half_sqrt sum_power2_ge_zero)
qed

lemma points_really_close_iff:
  "points_really_close p1 p2 \<longleftrightarrow> (px p2 - px p1)\<^sup>2 + (py p2 - py p1)\<^sup>2 < 25"
proof -
  have "sqrt ((px p2 - px p1)\<^sup>2 + (py p2 - py p1)\<^sup>2) < sqrt 25
          \<longleftrightarrow> (px p2 - px p1)\<^sup>2 + (py p2 - py p1)\<^sup>2 < 25"
    by (rule real_sqrt_less_iff)
  moreover have "sqrt 25 = (5::real)"
    using real_sqrt_abs [of 5] by simp
  ultimately show ?thesis
    by (simp add: points_really_close_def CLOSE_ENOUGH_def get_distance_sqrt)
qed


section \<open>Mutation through a list of references, and the deep copy\<close>

lemma length_update_each: "length (update_each f h rs) = length h"
  by (induction rs arbitrary: h) simp_all

lemma update_each_nth:
  "j < length h \<Longrightarrow> update_each f h rs ! j = (f ^^ count_list rs j) (h ! j)"
proof (induction rs arbitrary: h)
  case Nil
  then show ?case by simp
next
  case (Cons r rs)
  have len: "j < length (h[r := f (h ! r)])" using Cons.prems by simp
  show ?case
  proof (cases "r = j")
    case True
    then show ?thesis using Cons.IH [OF len] Cons.prems by (simp add: funpow_swap1)
  next
    case False
    then show ?thesis using Cons.IH [OF len] by simp
  qed
qed

lemma translate_shape_update_each:
  "translate_shape h rs dx dy = update_each (shifted dx dy) h rs"
  by (induction rs arbitrary: h) simp_all

lemma rotate_shape_update_each:
  "rotate_shape h rs angle = update_each (rotated angle) h rs"
  by (induction rs arbitrary: h) (simp_all add: rotate_point_def)

lemma memo_ok_extend:
  assumes ok: "memo_ok n h memo" and r: "r < n" and none: "map_of memo r = None"
  shows "memo_ok n (h @ [h ! r]) ((r, length h) # memo)"
proof -
  from ok have n: "n \<le> length h"
    and cells: "\<And>r c. map_of memo r = Some c \<Longrightarrow> r < n \<and> n \<le> c \<and> c < length h \<and> h ! c = h ! r"
    and inj: "inj_on (map_of memo) (dom (map_of memo))"
    by (auto simp: memo_ok_def)
  have "inj_on (map_of ((r, length h) # memo)) (dom (map_of ((r, length h) # memo)))"
  proof (rule inj_onI)
    fix a b
    assume a: "a \<in> dom (map_of ((r, length h) # memo))"
      and b: "b \<in> dom (map_of ((r, length h) # memo))"
      and eq: "map_of ((r, length h) # memo) a = map_of ((r, length h) # memo) b"
    show "a = b"
    proof (cases "a = r")
      case True
      show ?thesis
      proof (rule ccontr)
        assume "a \<noteq> b"
        with True eq have "map_of memo b = Some (length h)" by (simp split: if_splits)
        from cells [OF this] show False by simp
      qed
    next
      case False
      show ?thesis
      proof (cases "b = r")
        case True
        with False eq have "map_of memo a = Some (length h)" by (simp split: if_splits)
        from cells [OF this] show ?thesis by simp
      next
        case bf: False
        with False a b eq have "a \<in> dom (map_of memo)" "b \<in> dom (map_of memo)"
          "map_of memo a = map_of memo b" by auto
        with inj show ?thesis by (auto dest: inj_onD)
      qed
    qed
  qed
  moreover have "\<forall>a c. map_of ((r, length h) # memo) a = Some c \<longrightarrow>
      a < n \<and> n \<le> c \<and> c < length (h @ [h ! r]) \<and> (h @ [h ! r]) ! c = (h @ [h ! r]) ! a"
  proof (intro allI impI)
    fix a c assume m: "map_of ((r, length h) # memo) a = Some c"
    show "a < n \<and> n \<le> c \<and> c < length (h @ [h ! r]) \<and> (h @ [h ! r]) ! c = (h @ [h ! r]) ! a"
    proof (cases "a = r")
      case True
      with m r n show ?thesis by (simp add: nth_append)
    next
      case False
      with m have "map_of memo a = Some c" by simp
      from cells [OF this] n show ?thesis by (simp add: nth_append)
    qed
  qed
  ultimately show ?thesis using n by (simp add: memo_ok_def)
qed

lemma deepcopy_memo_inv:
  "memo_ok n h memo \<Longrightarrow> \<forall>r\<in>set rs. r < n \<Longrightarrow> deepcopy_memo h memo rs = (cs, h') \<Longrightarrow>
   \<exists>memo' ext. memo_ok n h' memo' \<and> h' = h @ ext \<and> map_of memo \<subseteq>\<^sub>m map_of memo' \<and>
      cs = map (\<lambda>r. the (map_of memo' r)) rs \<and> set rs \<subseteq> dom (map_of memo')"
proof (induction rs arbitrary: h memo cs h')
  case Nil
  then show ?case by auto
next
  case (Cons r rs)
  show ?case
  proof (cases "map_of memo r")
    case (Some c)
    obtain cs0 where run: "deepcopy_memo h memo rs = (cs0, h')" and cs: "cs = c # cs0"
      using Cons.prems(3) Some by (auto split: prod.splits)
    have valid: "\<forall>r\<in>set rs. r < n" using Cons.prems(2) by simp
    from Cons.IH [OF Cons.prems(1) valid run]
    obtain memo' ext where m: "memo_ok n h' memo'" "h' = h @ ext" "map_of memo \<subseteq>\<^sub>m map_of memo'"
      "cs0 = map (\<lambda>r. the (map_of memo' r)) rs" "set rs \<subseteq> dom (map_of memo')"
      by blast
    have "map_of memo' r = Some c"
      using m(3) Some by (metis domI map_le_def)
    with m cs show ?thesis by auto
  next
    case None
    have eta: "\<lparr>px = px (h ! r), py = py (h ! r)\<rparr> = h ! r" by simp
    obtain cs0 where run: "deepcopy_memo (h @ [h ! r]) ((r, length h) # memo) rs = (cs0, h')"
      and cs: "cs = length h # cs0"
      using Cons.prems(3) None by (auto simp: new_Point_def eta split: prod.splits)
    have r: "r < n" using Cons.prems(2) by simp
    have valid: "\<forall>r\<in>set rs. r < n" using Cons.prems(2) by simp
    from Cons.IH [OF memo_ok_extend [OF Cons.prems(1) r None] valid run]
    obtain memo' ext where m: "memo_ok n h' memo'" "h' = (h @ [h ! r]) @ ext"
      "map_of ((r, length h) # memo) \<subseteq>\<^sub>m map_of memo'"
      "cs0 = map (\<lambda>r. the (map_of memo' r)) rs" "set rs \<subseteq> dom (map_of memo')"
      by blast
    have r': "map_of memo' r = Some (length h)"
      using m(3) by (metis domI map_le_def map_of_Cons_code(2))
    have le: "map_of memo \<subseteq>\<^sub>m map_of memo'"
      using m(3) None by (auto simp: map_le_def dom_def split: if_splits)
    from m r' le cs show ?thesis by auto
  qed
qed

lemma update_each_take:
  "\<forall>r\<in>set rs. n \<le> r \<Longrightarrow> take n (update_each f h rs) = take n h"
  by (induction rs arbitrary: h) simp_all

lemma count_list_map_inj:
  "inj_on g (insert x (set rs)) \<Longrightarrow> count_list (map g rs) (g x) = count_list rs x"
proof (induction rs)
  case Nil
  then show ?case by simp
next
  case (Cons r rs)
  have "inj_on g (insert x (set rs))"
    using Cons.prems by (rule inj_on_subset) auto
  moreover have "g r = g x \<longleftrightarrow> r = x"
  proof -
    have "r \<in> insert x (set (r # rs))" "x \<in> insert x (set (r # rs))" by simp_all
    then show ?thesis by (rule inj_on_eq_iff [OF Cons.prems])
  qed
  ultimately show ?case using Cons.IH by simp
qed

lemma deepcopy_props:
  assumes valid: "\<forall>r\<in>set rs. r < length h" and run: "deepcopy h rs = (cs, h')"
  shows "length cs = length rs"
    and "take (length h) h' = h"
    and "\<forall>c\<in>set cs. length h \<le> c \<and> c < length h'"
    and "\<forall>k<length rs. h' ! (cs ! k) = h ! (rs ! k)"
    and "\<forall>k<length rs. count_list cs (cs ! k) = count_list rs (rs ! k)"
proof -
  have ok0: "memo_ok (length h) h []" by (simp add: memo_ok_def)
  from run have run': "deepcopy_memo h [] rs = (cs, h')" by (simp add: deepcopy_def)
  from deepcopy_memo_inv [OF ok0 valid run']
  obtain memo' ext where ok: "memo_ok (length h) h' memo'" and h': "h' = h @ ext"
    and cs: "cs = map (\<lambda>r. the (map_of memo' r)) rs" and dom: "set rs \<subseteq> dom (map_of memo')"
    by blast
  let ?g = "\<lambda>r. the (map_of memo' r)"
  have g: "map_of memo' r = Some (?g r)" if "r \<in> set rs" for r
    using dom that by auto
  have cell: "length h \<le> ?g r \<and> ?g r < length h' \<and> h' ! ?g r = h ! r" if "r \<in> set rs" for r
  proof -
    from ok g [OF that]
    have "r < length h \<and> length h \<le> ?g r \<and> ?g r < length h' \<and> h' ! ?g r = h' ! r"
      unfolding memo_ok_def by blast
    moreover from this have "h' ! r = h ! r" by (simp add: h' nth_append)
    ultimately show ?thesis by simp
  qed
  have inj: "inj_on ?g (set rs)"
  proof (rule inj_onI)
    fix a b assume a: "a \<in> set rs" and b: "b \<in> set rs" and eq: "?g a = ?g b"
    have "map_of memo' a = map_of memo' b" using g [OF a] g [OF b] eq by simp
    moreover have "a \<in> dom (map_of memo')" "b \<in> dom (map_of memo')" using a b dom by auto
    moreover have "inj_on (map_of memo') (dom (map_of memo'))" using ok by (simp add: memo_ok_def)
    ultimately show "a = b" by (auto dest: inj_onD)
  qed
  show "length cs = length rs" by (simp add: cs)
  show "take (length h) h' = h" by (simp add: h')
  show "\<forall>c\<in>set cs. length h \<le> c \<and> c < length h'" using cell by (auto simp: cs)
  show "\<forall>k<length rs. h' ! (cs ! k) = h ! (rs ! k)" using cell by (simp add: cs)
  show "\<forall>k<length rs. count_list cs (cs ! k) = count_list rs (rs ! k)"
  proof (intro allI impI)
    fix k assume k: "k < length rs"
    have "inj_on ?g (insert (rs ! k) (set rs))" using inj k by (simp add: insert_absorb)
    from count_list_map_inj [OF this] show "count_list cs (cs ! k) = count_list rs (rs ! k)"
      using k by (simp add: cs)
  qed
qed

lemma subscript_nonneg: "i < length xs \<Longrightarrow> subscript xs (int i) = Inr (xs ! i)"
  by (simp add: subscript_def)

lemma length_translated_values: "length (translated_values vs ms i) = length vs"
  by (simp add: translated_values_def)

lemma length_work_values: "length (work_values vs ms half i) = length vs"
  by (simp add: work_values_def Let_def)

lemma translated_values_nth:
  "k < length vs \<Longrightarrow>
   translated_values vs ms i ! k = (shifted (px (vs ! i)) (py (vs ! i)) ^^ (ms ! k)) (vs ! k)"
  unfolding translated_values_def by (subst nth_map) simp_all

lemma work_values_nth:
  "k < length vs \<Longrightarrow>
   work_values vs ms half i ! k =
     (rotated (get_angle (translated_values vs ms i ! i) (translated_values vs ms i ! (i + half)))
        ^^ (ms ! k)) (translated_values vs ms i ! k)"
  unfolding work_values_def Let_def by (subst nth_map) simp_all

lemma mults_nth: "k < length d \<Longrightarrow> mults d ! k = count_list d (d ! k)"
  by (simp add: mults_def)

lemma prepare_shape_eq:
  assumes valid: "\<forall>r\<in>set d. r < length h" and i: "index < half" and half: "2 * half \<le> length d"
  shows "\<exists>cs h3. prepare_shape cb d half h tr index =
            Inr (cs, h3, tr @ prepare_events cb (map ((!) h) d) (mults d) half index) \<and>
          length cs = length d \<and>
          map ((!) h3) cs = work_values (map ((!) h) d) (mults d) half index \<and>
          take (length h) h3 = h"
proof -
  let ?vs = "map ((!) h) d" and ?ms = "mults d"
  obtain cs h1 where dc: "deepcopy h d = (cs, h1)" by (cases "deepcopy h d")
  note p = deepcopy_props [OF valid dc]
  have len: "length cs = length d" by (rule p(1))
  have i1: "index < length cs" and i2: "index + half < length cs" using i half len by simp_all
  have fresh: "\<forall>c\<in>set cs. length h \<le> c" using p(3) by blast
  have in1: "\<forall>c\<in>set cs. c < length h1" using p(3) by blast
  let ?dx = "px (h1 ! (cs ! index))" and ?dy = "py (h1 ! (cs ! index))"
  let ?h2 = "update_each (shifted ?dx ?dy) h1 cs"
  let ?angle = "get_angle (?h2 ! (cs ! index)) (?h2 ! (cs ! (index + half)))"
  let ?h3 = "update_each (rotated ?angle) ?h2 cs"
  have pf: "h1 ! (cs ! index) = ?vs ! index" using p(4) i1 len by simp
  have t: "map ((!) ?h2) cs = translated_values ?vs ?ms index"
  proof (rule nth_equalityI)
    show "length (map ((!) ?h2) cs) = length (translated_values ?vs ?ms index)"
      by (simp add: len length_translated_values)
  next
    fix k assume "k < length (map ((!) ?h2) cs)"
    then have k: "k < length d" by (simp add: len)
    then have kc: "cs ! k < length h1" using in1 len by simp
    show "map ((!) ?h2) cs ! k = translated_values ?vs ?ms index ! k"
      using k kc p(4) p(5) pf
      by (simp add: len update_each_nth translated_values_nth mults_nth)
  qed
  have tn: "?h2 ! (cs ! k) = translated_values ?vs ?ms index ! k" if "k < length d" for k
    using t that len by (metis nth_map)
  have w: "map ((!) ?h3) cs = work_values ?vs ?ms half index"
  proof (rule nth_equalityI)
    show "length (map ((!) ?h3) cs) = length (work_values ?vs ?ms half index)"
      by (simp add: len length_work_values)
  next
    fix k assume "k < length (map ((!) ?h3) cs)"
    then have k: "k < length d" by (simp add: len)
    then have kc: "cs ! k < length ?h2" using in1 len by (simp add: length_update_each)
    have ii: "index < length d" "index + half < length d" using i1 i2 len by simp_all
    show "map ((!) ?h3) cs ! k = work_values ?vs ?ms half index ! k"
      using k kc p(5) tn [OF k] tn [OF ii(1)] tn [OF ii(2)]
      by (simp add: len update_each_nth [OF kc] work_values_nth mults_nth)
  qed
  have keep: "take (length h) ?h3 = h"
    using fresh p(2) by (simp add: update_each_take)
  have "prepare_shape cb d half h tr index =
          Inr (cs, ?h3, tr @ prepare_events cb ?vs ?ms half index)"
    using i1 i2 t w
    by (simp add: prepare_shape_def dc subscript_nonneg translate_shape_update_each
        rotate_shape_update_each prepare_events_def Let_def
        del: of_nat_add flip: of_nat_add)
  with len w keep show ?thesis by blast
qed

section \<open>The mirror loop, one candidate, all candidates\<close>

lemma subscript_mod:
  assumes "- int (length xs) \<le> j" and "j < int (length xs)"
  shows "subscript xs j = Inr (xs ! nat (j mod int (length xs)))"
proof (cases "0 \<le> j")
  case True
  then show ?thesis using assms by (simp add: subscript_def)
next
  case False
  have "(j + int (length xs)) mod int (length xs) = j mod int (length xs)" by simp
  moreover have "(j + int (length xs)) mod int (length xs) = j + int (length xs)"
    using assms False by (intro mod_pos_pos_trivial) simp_all
  ultimately have "j mod int (length xs) = int (length xs) + j" by simp
  then show ?thesis using assms False by (simp add: subscript_def)
qed

lemma subscript_error:
  "\<not> (- int (length xs) \<le> j \<and> j < int (length xs)) \<Longrightarrow> subscript xs j = Inl IndexError"
  by (auto simp: subscript_def)

lemma error_is_IndexError: "(e::error) = IndexError"
  by (cases e) simp

lemma mirror_loop_eq:
  "mirror_loop h c index s ms =
     (if \<forall>m\<in>set ms. in_range c index m
      then Inr (s \<and> (\<forall>m\<in>set ms. points_really_close
                         (abs_y (h ! (c ! nat ((int index - int m) mod int (length c)))))
                         (abs_y (h ! (c ! (index + m))))))
      else Inl IndexError)"
proof (induction ms arbitrary: s)
  case Nil
  then show ?case by simp
next
  case (Cons m ms)
  show ?case
  proof (cases "in_range c index m")
    case True
    then have a: "subscript c (int index - int m) =
        Inr (c ! nat ((int index - int m) mod int (length c)))"
      by (intro subscript_mod) (simp_all add: in_range_def)
    from True have "index + m < length c" by (simp add: in_range_def)
    then have b: "subscript c (int index + int m) = Inr (c ! (index + m))"
      using subscript_nonneg [of "index + m" c] by simp
    show ?thesis using True by (auto simp: a b Cons.IH)
  next
    case False
    have "subscript c (int index - int m) = Inl IndexError \<or>
          subscript c (int index + int m) = Inl IndexError"
    proof (cases "- int (length c) \<le> int index - int m \<and> int index - int m < int (length c)")
      case True
      with False have "\<not> (- int (length c) \<le> int index + int m \<and> int index + int m < int (length c))"
        by (simp add: in_range_def)
      then show ?thesis by (simp add: subscript_error)
    next
      case False
      then show ?thesis by (simp add: subscript_error)
    qed
    then have "mirror_loop h c index s (m # ms) = Inl IndexError"
      by (auto simp: error_is_IndexError split: sum.splits)
    with False show ?thesis by simp
  qed
qed

lemma in_range_candidate:
  "index < half \<Longrightarrow> 2 * half \<le> length c \<Longrightarrow> m < half \<Longrightarrow> in_range c index m"
  by (simp add: in_range_def)

lemma mirror_loop_range:
  assumes "index < half" and "2 * half \<le> length c"
  shows "mirror_loop h c index True [0..<half] =
     Inr (\<forall>m<half. points_really_close
                     (abs_y (h ! (c ! nat ((int index - int m) mod int (length c)))))
                     (abs_y (h ! (c ! (index + m)))))"
  using assms by (simp add: mirror_loop_eq in_range_candidate Ball_def)


lemma mirror_loop_verdict:
  assumes i: "index < half" and half: "2 * half \<le> length d" and len: "length cs = length d"
    and w: "map ((!) h3) cs = work_values vs ms half index" and lvs: "length vs = length d"
  shows "mirror_loop h3 cs index True [0..<half] = Inr (verdict vs ms half index)"
proof -
  let ?ws = "work_values vs ms half index"
  have wn: "h3 ! (cs ! k) = ?ws ! k" if "k < length d" for k
    using w that len by (metis nth_map)
  have half': "2 * half \<le> length cs" using half len by simp
  have lws: "length ?ws = length d" by (simp add: length_work_values lvs)
  have "(\<forall>m<half. points_really_close
                     (abs_y (h3 ! (cs ! nat ((int index - int m) mod int (length cs)))))
                     (abs_y (h3 ! (cs ! (index + m)))))
        = mirror_ok ?ws half index"
    unfolding mirror_ok_def lws len
  proof (intro all_cong1 imp_cong refl)
    fix m assume m: "m < half"
    have "0 < length d" using i half by linarith
    then have pos: "0 < int (length d)" by simp
    have "nat ((int index - int m) mod int (length d)) < length d"
      using pos by (simp add: nat_less_iff)
    moreover have "index + m < length d" using i m half by simp
    ultimately show "points_really_close
                     (abs_y (h3 ! (cs ! nat ((int index - int m) mod int (length d)))))
                     (abs_y (h3 ! (cs ! (index + m))))
        = points_really_close
                     (abs_y (?ws ! nat ((int index - int m) mod int (length d))))
                     (abs_y (?ws ! (index + m)))"
      by (simp add: wn)
  qed
  then show ?thesis
    using mirror_loop_range [OF i half', of h3] by (simp add: verdict_def)
qed

lemma candidate_eq:
  assumes valid: "\<forall>r\<in>set d. r < length (heap st)" and i: "index < half"
    and half: "2 * half \<le> length d"
  shows "\<exists>h3. candidate cb d half st index =
            Inr \<lparr>heap = h3,
                 trace = trace st @ candidate_events cb d (map ((!) (heap st)) d) half index,
                 symmetries = symmetries st @
                   (if verdict (map ((!) (heap st)) d) (mults d) half index
                    then [(d ! index, d ! (index + half))] else [])\<rparr> \<and>
          take (length (heap st)) h3 = heap st"
proof -
  let ?vs = "map ((!) (heap st)) d"
  let ?ws = "work_values ?vs (mults d) half index"
  from prepare_shape_eq [OF valid i half, of cb "trace st"]
  obtain cs h3 where prep: "prepare_shape cb d half (heap st) (trace st) index =
        Inr (cs, h3, trace st @ prepare_events cb ?vs (mults d) half index)"
    and len: "length cs = length d" and w: "map ((!) h3) cs = ?ws"
    and keep: "take (length (heap st)) h3 = heap st"
    by blast
  have loop: "mirror_loop h3 cs index True [0..<half] = Inr (verdict ?vs (mults d) half index)"
    by (rule mirror_loop_verdict [OF i half len w]) simp
  have s1: "subscript d (int index) = Inr (d ! index)"
    using i half by (intro subscript_nonneg) simp
  have s2: "subscript d (int (index + half)) = Inr (d ! (index + half))"
    using i half by (intro subscript_nonneg) simp
  have "candidate cb d half st index =
            Inr \<lparr>heap = h3,
                 trace = trace st @ candidate_events cb d ?vs half index,
                 symmetries = symmetries st @
                   (if verdict ?vs (mults d) half index
                    then [(d ! index, d ! (index + half))] else [])\<rparr>"
    unfolding candidate_def prep
    using s2 by (simp add: loop s1 candidate_events_def)
  with keep show ?thesis by blast
qed

lemma candidates_loop_eq:
  assumes valid: "\<forall>r\<in>set d. r < length h1" and half: "2 * half \<le> length d"
  shows "\<forall>i\<in>set idxs. i < half \<Longrightarrow> take (length h1) (heap st) = h1 \<Longrightarrow>
     \<exists>hf. candidates_loop cb d half st idxs =
            Inr \<lparr>heap = hf,
                 trace = trace st @ concat (map (candidate_events cb d (map ((!) h1) d) half) idxs),
                 symmetries = symmetries st @
                   map (\<lambda>i. (d ! i, d ! (i + half)))
                     (filter (verdict (map ((!) h1) d) (mults d) half) idxs)\<rparr> \<and>
           take (length h1) hf = h1"
proof (induction idxs arbitrary: st)
  case Nil
  then show ?case by (intro exI [of _ "heap st"]) simp
next
  case (Cons i idxs)
  have le: "length h1 \<le> length (heap st)"
    using Cons.prems(2) by (metis length_take min.cobounded2 min.commute)
  have same: "heap st ! r = h1 ! r" if "r < length h1" for r
    using Cons.prems(2) that by (metis nth_take)
  have vs: "map ((!) (heap st)) d = map ((!) h1) d"
    using valid same by simp
  have valid': "\<forall>r\<in>set d. r < length (heap st)" using valid le by auto
  have i: "i < half" using Cons.prems(1) by simp
  from candidate_eq [OF valid' i half, of cb]
  obtain h3 where c: "candidate cb d half st i =
            Inr \<lparr>heap = h3,
                 trace = trace st @ candidate_events cb d (map ((!) h1) d) half i,
                 symmetries = symmetries st @
                   (if verdict (map ((!) h1) d) (mults d) half i
                    then [(d ! i, d ! (i + half))] else [])\<rparr>"
    and keep: "take (length (heap st)) h3 = heap st"
    unfolding vs by blast
  let ?st = "\<lparr>heap = h3,
                 trace = trace st @ candidate_events cb d (map ((!) h1) d) half i,
                 symmetries = symmetries st @
                   (if verdict (map ((!) h1) d) (mults d) half i
                    then [(d ! i, d ! (i + half))] else [])\<rparr>"
  have "take (length h1) (take (length (heap st)) h3) = take (length h1) (heap st)"
    using keep by simp
  then have keep1: "take (length h1) (heap ?st) = h1"
    using le Cons.prems(2) by (simp add: min_def)
  have rest: "\<forall>i\<in>set idxs. i < half" using Cons.prems(1) by simp
  from Cons.IH [OF rest keep1]
  obtain hf where r: "candidates_loop cb d half ?st idxs =
            Inr \<lparr>heap = hf,
                 trace = trace ?st @ concat (map (candidate_events cb d (map ((!) h1) d) half) idxs),
                 symmetries = symmetries ?st @
                   map (\<lambda>i. (d ! i, d ! (i + half)))
                     (filter (verdict (map ((!) h1) d) (mults d) half) idxs)\<rparr>"
    and k: "take (length h1) hf = h1"
    by blast
  have step: "candidates_loop cb d half st (i # idxs) = candidates_loop cb d half ?st idxs"
    by (simp only: candidates_loop.simps c sum.case)
  have e: "\<lparr>heap = hf,
                 trace = trace ?st @ concat (map (candidate_events cb d (map ((!) h1) d) half) idxs),
                 symmetries = symmetries ?st @
                   map (\<lambda>i. (d ! i, d ! (i + half)))
                     (filter (verdict (map ((!) h1) d) (mults d) half) idxs)\<rparr> =
           \<lparr>heap = hf,
                 trace = trace st @ concat (map (candidate_events cb d (map ((!) h1) d) half) (i # idxs)),
                 symmetries = symmetries st @
                   map (\<lambda>i. (d ! i, d ! (i + half)))
                     (filter (verdict (map ((!) h1) d) (mults d) half) (i # idxs))\<rparr>"
    by simp
  show ?case
  proof (intro exI conjI)
    show "candidates_loop cb d half st (i # idxs) =
           Inr \<lparr>heap = hf,
                 trace = trace st @ concat (map (candidate_events cb d (map ((!) h1) d) half) (i # idxs)),
                 symmetries = symmetries st @
                   map (\<lambda>i. (d ! i, d ! (i + half)))
                     (filter (verdict (map ((!) h1) d) (mults d) half) (i # idxs))\<rparr>"
      unfolding step r e ..
    show "take (length h1) hf = h1" by (rule k)
  qed
qed

lemma doubled_refs_valid:
  assumes valid: "\<forall>r\<in>set ps. r < length h"
  shows "\<forall>r\<in>set (doubled_refs (length h) ps). r < length (h @ mid_cells h ps)"
proof
  fix r assume "r \<in> set (doubled_refs (length h) ps)"
  then obtain j where j: "j < 2 * length ps" and r: "r = doubled_refs (length h) ps ! j"
    by (metis in_set_conv_nth length_doubled_refs)
  have jd: "j div 2 < length ps" using j by simp
  then have "ps ! (j div 2) < length h" using valid by simp
  then show "r < length (h @ mid_cells h ps)"
    using j jd r by (simp add: doubled_refs_nth length_mid_cells)
qed

lemma get_lines_of_symmetry_eq:
  assumes valid: "\<forall>r\<in>set ps. r < length h"
  shows "\<exists>hf. get_lines_of_symmetry cb h ps =
            Inr \<lparr>heap = hf,
                 trace = concat (map (candidate_events cb (doubled_refs (length h) ps)
                            (map ((!) (h @ mid_cells h ps)) (doubled_refs (length h) ps)) (length ps))
                          [0..<length ps]),
                 symmetries =
                   map (\<lambda>i. (doubled_refs (length h) ps ! i, doubled_refs (length h) ps ! (i + length ps)))
                     (filter (verdict (map ((!) (h @ mid_cells h ps)) (doubled_refs (length h) ps))
                                (mults (doubled_refs (length h) ps)) (length ps))
                        [0..<length ps])\<rparr> \<and>
           take (length h + length ps) hf = h @ mid_cells h ps"
proof -
  let ?d = "doubled_refs (length h) ps" and ?h1 = "h @ mid_cells h ps"
  have dvalid: "\<forall>r\<in>set ?d. r < length ?h1"
    by (rule doubled_refs_valid [OF valid])
  have half: "2 * length ps \<le> length ?d" by (simp add: length_doubled_refs)
  have idx: "\<forall>i\<in>set [0..<length ps]. i < length ps" by simp
  have keep: "take (length ?h1) (heap \<lparr>heap = ?h1, trace = [], symmetries = []\<rparr>) = ?h1" by simp
  from candidates_loop_eq [OF dvalid half idx keep, of cb]
  obtain hf where run: "candidates_loop cb ?d (length ps) \<lparr>heap = ?h1, trace = [], symmetries = []\<rparr>
        [0..<length ps] =
       Inr \<lparr>heap = hf,
            trace = concat (map (candidate_events cb ?d (map ((!) ?h1) ?d) (length ps)) [0..<length ps]),
            symmetries = map (\<lambda>i. (?d ! i, ?d ! (i + length ps)))
                     (filter (verdict (map ((!) ?h1) ?d) (mults ?d) (length ps)) [0..<length ps])\<rparr>"
    and k: "take (length ?h1) hf = ?h1"
    by auto
  have keep': "take (length h + length ps) hf = ?h1" using k by (simp add: length_mid_cells)
  have "length ?d div 2 = length ps" by (simp add: length_doubled_refs)
  then have "get_lines_of_symmetry cb h ps =
      candidates_loop cb ?d (length ps) \<lparr>heap = ?h1, trace = [], symmetries = []\<rparr> [0..<length ps]"
    by (simp add: get_lines_of_symmetry_def double_points_eq [OF valid] Let_def)
  with run keep' show ?thesis by simp
qed

section \<open>The claims about errors, indices and the input\<close>

text \<open>
  Claim C1, as amended. For the empty polygon \<open>get_lines_of_symmetry\<close> raises nothing:
  it returns the empty list of axes, calls no observer and leaves the store as it is.
\<close>

theorem empty_polygon_returns:
  "get_lines_of_symmetry cb h [] = Inr \<lparr>heap = h, trace = [], symmetries = []\<rparr>"
  by (simp add: get_lines_of_symmetry_def double_points_def)

text \<open>The claim as stated (an error for the empty polygon) fails on the empty store.\<close>

theorem empty_polygon_no_error:
  "get_lines_of_symmetry
     \<lparr>original_callback = True, translate_callback = True, rotate_callback = True,
      symmetry_callback = True\<rparr> [] []
   = Inr \<lparr>heap = [], trace = [], symmetries = []\<rparr>"
  by (simp add: get_lines_of_symmetry_def double_points_def)



text \<open>
  Claim C9. A call of \<open>get_lines_of_symmetry\<close> leaves every object that existed before the
  call as it was, in particular every Point of the input list: the store after the call
  starts with the store before the call.
\<close>

theorem input_not_mutated:
  assumes "\<forall>r\<in>set ps. r < length h"
  shows "\<exists>st. get_lines_of_symmetry cb h ps = Inr st \<and> take (length h) (heap st) = h \<and>
              (\<forall>r\<in>set ps. px (heap st ! r) = px (h ! r) \<and> py (heap st ! r) = py (h ! r))"
proof -
  from get_lines_of_symmetry_eq [OF assms, of cb]
  obtain st where run: "get_lines_of_symmetry cb h ps = Inr st"
    and k: "take (length h + length ps) (heap st) = h @ mid_cells h ps"
    by force
  have "take (length h) (take (length h + length ps) (heap st)) = take (length h) (h @ mid_cells h ps)"
    using k by simp
  then have keep: "take (length h) (heap st) = h" by (simp add: min_def)
  have "heap st ! r = h ! r" if "r \<in> set ps" for r
    using keep assms that by (metis nth_take)
  with run keep show ?thesis by auto
qed

theorem input_not_mutated_witness:
  "set [0, 1, 2] \<subseteq> {..<length [\<lparr>px = 0, py = 0\<rparr>, \<lparr>px = 10, py = 50\<rparr>, \<lparr>px = 80, py = 30\<rparr>]} \<and>
   (\<exists>st. get_lines_of_symmetry
            \<lparr>original_callback = True, translate_callback = True, rotate_callback = True,
             symmetry_callback = True\<rparr>
            [\<lparr>px = 0, py = 0\<rparr>, \<lparr>px = 10, py = 50\<rparr>, \<lparr>px = 80, py = 30\<rparr>] [0, 1, 2] = Inr st \<and>
         take 3 (heap st) = [\<lparr>px = 0, py = 0\<rparr>, \<lparr>px = 10, py = 50\<rparr>, \<lparr>px = 80, py = 30\<rparr>])"
proof -
  let ?h = "[\<lparr>px = 0, py = 0\<rparr>, \<lparr>px = 10, py = 50\<rparr>, \<lparr>px = 80, py = 30\<rparr>]"
  have valid: "\<forall>r\<in>set [0, 1, 2]. r < length ?h" by simp
  from input_not_mutated [OF valid, where cb = "\<lparr>original_callback = True, translate_callback = True,
      rotate_callback = True, symmetry_callback = True\<rparr>"]
  obtain st where "get_lines_of_symmetry \<lparr>original_callback = True, translate_callback = True,
      rotate_callback = True, symmetry_callback = True\<rparr> ?h [0, 1, 2] = Inr st"
    and "take (length ?h) (heap st) = ?h"
    by blast
  then show ?thesis by (auto simp: numeral_3_eq_3)
qed



lemma accepted_eq:
  assumes valid: "\<forall>r\<in>set d. r < length h" and i: "index < length d div 2"
  shows "accepted h d index = verdict (map ((!) h) d) (mults d) (length d div 2) index"
proof -
  have half: "2 * (length d div 2) \<le> length d" by simp
  from prepare_shape_eq [OF valid i half, of no_callbacks "[]"]
  obtain cs h3 where prep: "prepare_shape no_callbacks d (length d div 2) h [] index =
        Inr (cs, h3, [] @ prepare_events no_callbacks (map ((!) h) d) (mults d) (length d div 2) index)"
    and len: "length cs = length d"
    and w: "map ((!) h3) cs = work_values (map ((!) h) d) (mults d) (length d div 2) index"
    by blast
  have "mirror_loop h3 cs index True [0..<length d div 2] =
      Inr (verdict (map ((!) h) d) (mults d) (length d div 2) index)"
    by (rule mirror_loop_verdict [OF i half len w]) simp
  then show ?thesis by (simp add: accepted_def prep)
qed

lemma filter_symmetry_calls:
  "filter is_symmetry_call (concat (map (candidate_events cb d vs half) idxs)) =
     (if symmetry_callback cb
      then map (\<lambda>i. Symmetry_call i (d ! i) (d ! (i + half))) (filter (verdict vs (mults d) half) idxs)
      else [])"
  by (induction idxs) (simp_all add: candidate_events_def prepare_events_def)

text \<open>
  Claim C6. The returned list holds, for the confirmed candidates \<open>i\<close> in ascending order,
  the pair of the objects at the places \<open>i\<close> and \<open>i + half\<close> of the doubled list: objects
  that exist before any working copy is made, and whose coordinates after the call are
  those the doubling step gave them. The symmetry callback, when installed, is called
  once for each of these candidates, in the same order, with the index and the same two
  objects.
\<close>

theorem confirmed_axes:
  assumes valid: "\<forall>r\<in>set ps. r < length h"
  shows "\<exists>d h1 st. double_points h ps = Inr (d, h1) \<and> get_lines_of_symmetry cb h ps = Inr st \<and>
     symmetries st =
       map (\<lambda>i. (d ! i, d ! (i + length d div 2))) (filter (accepted h1 d) [0..<length d div 2]) \<and>
     filter is_symmetry_call (trace st) =
       (if symmetry_callback cb
        then map (\<lambda>i. Symmetry_call i (d ! i) (d ! (i + length d div 2)))
               (filter (accepted h1 d) [0..<length d div 2])
        else []) \<and>
     (\<forall>r\<in>set d. r < length h1 \<and> heap st ! r = h1 ! r)"
proof -
  let ?d = "doubled_refs (length h) ps" and ?h1 = "h @ mid_cells h ps"
  let ?vs = "map ((!) ?h1) ?d"
  have half: "length ?d div 2 = length ps" by (simp add: length_doubled_refs)
  have dvalid: "\<forall>r\<in>set ?d. r < length ?h1"
    by (rule doubled_refs_valid [OF valid])
  have acc: "filter (accepted ?h1 ?d) [0..<length ps] =
             filter (verdict ?vs (mults ?d) (length ps)) [0..<length ps]"
  proof (rule filter_cong [OF refl])
    fix i assume "i \<in> set [0..<length ps]"
    then have "i < length ?d div 2" by (simp add: half)
    from accepted_eq [OF dvalid this]
    show "accepted ?h1 ?d i = verdict ?vs (mults ?d) (length ps) i" by (simp add: half)
  qed
  from get_lines_of_symmetry_eq [OF valid, of cb]
  obtain hf where run: "get_lines_of_symmetry cb h ps =
       Inr \<lparr>heap = hf,
            trace = concat (map (candidate_events cb ?d ?vs (length ps)) [0..<length ps]),
            symmetries = map (\<lambda>i. (?d ! i, ?d ! (i + length ps)))
                     (filter (verdict ?vs (mults ?d) (length ps)) [0..<length ps])\<rparr>"
    and k: "take (length h + length ps) hf = ?h1"
    by blast
  let ?st = "\<lparr>heap = hf,
            trace = concat (map (candidate_events cb ?d ?vs (length ps)) [0..<length ps]),
            symmetries = map (\<lambda>i. (?d ! i, ?d ! (i + length ps)))
                     (filter (verdict ?vs (mults ?d) (length ps)) [0..<length ps])\<rparr>"
  have same: "\<forall>r\<in>set ?d. r < length ?h1 \<and> heap ?st ! r = ?h1 ! r"
  proof
    fix r assume r: "r \<in> set ?d"
    then have "r < length h + length ps" using dvalid by (simp add: length_mid_cells)
    then have "heap ?st ! r = ?h1 ! r" using k by (metis nth_take select_convs(1))
    with r dvalid show "r < length ?h1 \<and> heap ?st ! r = ?h1 ! r" by simp
  qed
  have s: "symmetries ?st =
       map (\<lambda>i. (?d ! i, ?d ! (i + length ?d div 2))) (filter (accepted ?h1 ?d) [0..<length ?d div 2])"
    by (simp add: half acc)
  have t: "filter is_symmetry_call (trace ?st) =
       (if symmetry_callback cb
        then map (\<lambda>i. Symmetry_call i (?d ! i) (?d ! (i + length ?d div 2)))
               (filter (accepted ?h1 ?d) [0..<length ?d div 2])
        else [])"
    by (simp add: half acc filter_symmetry_calls)
  from double_points_eq [OF valid] run s t same show ?thesis by blast
qed

section \<open>The rotation angle\<close>

lemma sqrt_one_plus_ratio:
  assumes "x \<noteq> 0"
  shows "sqrt (1 + (y / x)\<^sup>2) = sqrt (x\<^sup>2 + y\<^sup>2) / \<bar>x\<bar>"
proof -
  have "1 + (y / x)\<^sup>2 = (x\<^sup>2 + y\<^sup>2) / x\<^sup>2"
    using assms by (simp add: field_simps power2_eq_square)
  then show ?thesis by (simp add: real_sqrt_divide)
qed

lemma atan2_cos_sin:
  assumes "x \<noteq> 0 \<or> y \<noteq> 0"
  shows "cos (atan2 y x) = x / sqrt (x\<^sup>2 + y\<^sup>2)" and "sin (atan2 y x) = y / sqrt (x\<^sup>2 + y\<^sup>2)"
proof -
  have "cos (atan2 y x) = x / sqrt (x\<^sup>2 + y\<^sup>2) \<and> sin (atan2 y x) = y / sqrt (x\<^sup>2 + y\<^sup>2)"
  proof (cases "x = 0")
    case True
    with assms have "y \<noteq> 0" by simp
    then show ?thesis using True by (cases "0 < y") (simp_all add: atan2_def)
  next
    case False
    have r: "sqrt (x\<^sup>2 + y\<^sup>2) \<noteq> 0" using False by simp
    note s = sqrt_one_plus_ratio [OF False, of y]
    show ?thesis
    proof (cases "0 < x")
      case True
      then show ?thesis using r by (simp add: atan2_def cos_arctan sin_arctan s)
    next
      case neg: False
      with False have "x < 0" by simp
      then show ?thesis using r
        by (cases "0 \<le> y") (simp_all add: atan2_def cos_arctan sin_arctan s)
    qed
  qed
  then show "cos (atan2 y x) = x / sqrt (x\<^sup>2 + y\<^sup>2)" and "sin (atan2 y x) = y / sqrt (x\<^sup>2 + y\<^sup>2)"
    by simp_all
qed

lemma radians_degrees: "radians (- degrees r) = - r"
  by (simp add: radians_def degrees_def)

lemma rotated_get_angle:
  assumes "px po - px pf \<noteq> 0 \<or> py po - py pf \<noteq> 0"
  shows "rotated (get_angle pf po) q =
     \<lparr>px = (px q * (px po - px pf) + py q * (py po - py pf))
               / sqrt ((px po - px pf)\<^sup>2 + (py po - py pf)\<^sup>2),
      py = (py q * (px po - px pf) - px q * (py po - py pf))
               / sqrt ((px po - px pf)\<^sup>2 + (py po - py pf)\<^sup>2)\<rparr>"
proof -
  define x y r where "x = px po - px pf" and "y = py po - py pf" and "r = sqrt (x\<^sup>2 + y\<^sup>2)"
  have xy: "x \<noteq> 0 \<or> y \<noteq> 0" using assms by (simp add: x_def y_def)
  have a: "radians (get_angle pf po) = - atan2 y x"
    by (simp add: get_angle_def radians_degrees x_def y_def)
  have c: "cos (- atan2 y x) = x / r" and s: "sin (- atan2 y x) = - (y / r)"
    using atan2_cos_sin [OF xy] by (simp_all add: r_def)
  have "rotated (get_angle pf po) q =
      \<lparr>px = px q * (x / r) - py q * (- (y / r)), py = px q * (- (y / r)) + py q * (x / r)\<rparr>"
    unfolding rotated_def Let_def a c s ..
  also have "\<dots> = \<lparr>px = (px q * x + py q * y) / r, py = (py q * x - px q * y) / r\<rparr>"
    by (simp add: add_divide_distrib diff_divide_distrib)
  finally show ?thesis by (simp add: x_def y_def r_def)
qed



section \<open>Degenerate polygons\<close>

lemma points_really_close_refl: "points_really_close p p"
  by (simp add: points_really_close_iff)

lemma verdict_one_point: "verdict vs ms (Suc 0) 0"
  by (simp add: verdict_def mirror_ok_def points_really_close_refl)


lemma doubled_refs_one: "doubled_refs k [a] = [a, k]"
  by (simp add: doubled_refs_def numeral_2_eq_2)






section \<open>Polygons given by coordinates\<close>

lemma count_list_distinct: "distinct xs \<Longrightarrow> x \<in> set xs \<Longrightarrow> count_list xs x = Suc 0"
  by (induction xs) auto

lemma doubled_refs_upt_nth:
  "j < 2 * n \<Longrightarrow> doubled_refs n [0..<n] ! j = (if even j then j div 2 else n + j div 2)"
  by (simp add: doubled_refs_nth)

lemma distinct_doubled_refs_upt: "distinct (doubled_refs n [0..<n])"
proof -
  have "doubled_refs n [0..<n] ! i \<noteq> doubled_refs n [0..<n] ! j"
    if "i < 2 * n" "j < 2 * n" "i \<noteq> j" for i j
  proof -
    have "i div 2 < n" "j div 2 < n" using that by simp_all
    moreover have "i div 2 \<noteq> j div 2" if "even i \<longleftrightarrow> even j"
      using that \<open>i \<noteq> j\<close> by (metis div_mult_mod_eq even_iff_mod_2_eq_zero not_mod_2_eq_0_eq_1)
    ultimately show ?thesis
      using that by (auto simp: doubled_refs_upt_nth)
  qed
  then show ?thesis by (simp add: distinct_conv_nth length_doubled_refs)
qed

lemma mults_doubled_refs_upt: "mults (doubled_refs n [0..<n]) = replicate (2 * n) (Suc 0)"
proof (rule nth_equalityI)
  show "length (mults (doubled_refs n [0..<n])) = length (replicate (2 * n) (Suc 0))"
    by (simp add: mults_def length_doubled_refs)
next
  fix k assume "k < length (mults (doubled_refs n [0..<n]))"
  then have k: "k < length (doubled_refs n [0..<n])" "k < 2 * n"
    by (simp_all add: mults_def length_doubled_refs)
  then show "mults (doubled_refs n [0..<n]) ! k = replicate (2 * n) (Suc 0) ! k"
    using count_list_distinct [OF distinct_doubled_refs_upt nth_mem [OF k(1)]]
    by (simp add: mults_nth)
qed

lemma length_doubled_values: "length (doubled_values vs) = 2 * length vs"
  by (simp add: doubled_values_def)

lemma doubled_values_nth:
  "j < 2 * length vs \<Longrightarrow>
   doubled_values vs ! j =
     (if even j then vs ! (j div 2)
      else midval (vs ! (j div 2)) (vs ! (Suc (j div 2) mod length vs)))"
  unfolding doubled_values_def by (subst nth_map) simp_all

lemma doubled_values_store:
  "map ((!) (vs @ mid_cells vs [0..<length vs])) (doubled_refs (length vs) [0..<length vs])
     = doubled_values vs"
proof (rule nth_equalityI)
  show "length (map ((!) (vs @ mid_cells vs [0..<length vs])) (doubled_refs (length vs) [0..<length vs]))
      = length (doubled_values vs)"
    by (simp add: length_doubled_refs length_doubled_values)
next
  fix j
  assume "j < length (map ((!) (vs @ mid_cells vs [0..<length vs])) (doubled_refs (length vs) [0..<length vs]))"
  then have j: "j < 2 * length vs" by (simp add: length_doubled_refs)
  then have jd: "j div 2 < length vs" by simp
  then have "0 < length vs" by linarith
  then have m: "Suc (j div 2) mod length vs < length vs" by (rule mod_less_divisor)
  show "map ((!) (vs @ mid_cells vs [0..<length vs])) (doubled_refs (length vs) [0..<length vs]) ! j
      = doubled_values vs ! j"
    using j jd m
    by (simp add: length_doubled_refs doubled_refs_upt_nth doubled_values_nth nth_append
        mid_cells_nth)
qed

lemma detect_eq:
  "detect cb vs =
     Inr (map (\<lambda>i. (doubled_values vs ! i, doubled_values vs ! (i + length vs)))
            (filter (verdict (doubled_values vs) (replicate (2 * length vs) (Suc 0)) (length vs))
               [0..<length vs]))"
proof -
  let ?n = "length vs"
  let ?d = "doubled_refs ?n [0..<?n]" and ?h1 = "vs @ mid_cells vs [0..<?n]"
  let ?ok = "filter (verdict (doubled_values vs) (replicate (2 * ?n) (Suc 0)) ?n) [0..<?n]"
  have valid: "\<forall>r\<in>set [0..<?n]. r < length vs" by simp
  from get_lines_of_symmetry_eq [OF valid, of cb]
  obtain st where run: "get_lines_of_symmetry cb vs [0..<?n] = Inr st"
    and sym: "symmetries st = map (\<lambda>i. (?d ! i, ?d ! (i + ?n))) ?ok"
    and keep: "take (?n + ?n) (heap st) = ?h1"
    by (force simp: doubled_values_store mults_doubled_refs_upt)
  have cell: "heap st ! (?d ! j) = doubled_values vs ! j" if j: "j < 2 * ?n" for j
  proof -
    have "j div 2 < ?n" using j by simp
    then have "?d ! j < ?n + ?n" using j by (simp add: doubled_refs_upt_nth)
    then have "heap st ! (?d ! j) = ?h1 ! (?d ! j)" using keep by (metis nth_take)
    also have "\<dots> = map ((!) ?h1) ?d ! j" using j by (simp add: length_doubled_refs)
    finally show ?thesis by (simp only: doubled_values_store)
  qed
  have "map (\<lambda>(p, q). (heap st ! p, heap st ! q)) (symmetries st) =
        map (\<lambda>i. (doubled_values vs ! i, doubled_values vs ! (i + ?n))) ?ok"
    unfolding sym map_map
  proof (rule map_cong [OF refl])
    fix i assume "i \<in> set ?ok"
    then have "i < ?n" by simp
    then show "((\<lambda>(p, q). (heap st ! p, heap st ! q)) \<circ> (\<lambda>i. (?d ! i, ?d ! (i + ?n)))) i
        = (doubled_values vs ! i, doubled_values vs ! (i + ?n))"
      by (simp add: cell)
  qed
  then show ?thesis by (simp add: detect_def run)
qed

lemma work_values_ones_nth:
  assumes k: "k < length vs" and i: "i < length vs" and o: "i + half < length vs"
  shows "work_values vs (replicate (length vs) (Suc 0)) half i ! k =
     rotated (get_angle \<lparr>px = 0, py = 0\<rparr>
                \<lparr>px = px (vs ! (i + half)) - px (vs ! i), py = py (vs ! (i + half)) - py (vs ! i)\<rparr>)
       \<lparr>px = px (vs ! k) - px (vs ! i), py = py (vs ! k) - py (vs ! i)\<rparr>"
  using assms by (simp add: work_values_nth translated_values_nth shifted_def)

lemma work_values_ones_formula:
  assumes k: "k < length vs" and i: "i < length vs" and o: "i + half < length vs"
    and nz: "px (vs ! (i + half)) - px (vs ! i) \<noteq> 0 \<or> py (vs ! (i + half)) - py (vs ! i) \<noteq> 0"
  shows "work_values vs (replicate (length vs) (Suc 0)) half i ! k =
     \<lparr>px = ((px (vs ! k) - px (vs ! i)) * (px (vs ! (i + half)) - px (vs ! i))
              + (py (vs ! k) - py (vs ! i)) * (py (vs ! (i + half)) - py (vs ! i)))
            / sqrt ((px (vs ! (i + half)) - px (vs ! i))\<^sup>2 + (py (vs ! (i + half)) - py (vs ! i))\<^sup>2),
      py = ((py (vs ! k) - py (vs ! i)) * (px (vs ! (i + half)) - px (vs ! i))
              - (px (vs ! k) - px (vs ! i)) * (py (vs ! (i + half)) - py (vs ! i)))
            / sqrt ((px (vs ! (i + half)) - px (vs ! i))\<^sup>2 + (py (vs ! (i + half)) - py (vs ! i))\<^sup>2)\<rparr>"
proof -
  let ?pf = "\<lparr>px = 0, py = 0\<rparr>"
  let ?po = "\<lparr>px = px (vs ! (i + half)) - px (vs ! i), py = py (vs ! (i + half)) - py (vs ! i)\<rparr>"
  have "px ?po - px ?pf \<noteq> 0 \<or> py ?po - py ?pf \<noteq> 0" using nz by simp
  from rotated_get_angle [OF this] show ?thesis
    by (simp add: work_values_ones_nth [OF k i o])
qed

lemma pair_symmetric:
  assumes j: "j < length vs" and k: "k < length vs" and i: "i < length vs"
    and o: "i + half < length vs"
    and nz: "px (vs ! (i + half)) - px (vs ! i) \<noteq> 0 \<or> py (vs ! (i + half)) - py (vs ! i) \<noteq> 0"
    and dot: "(px (vs ! j) - px (vs ! i)) * (px (vs ! (i + half)) - px (vs ! i))
              + (py (vs ! j) - py (vs ! i)) * (py (vs ! (i + half)) - py (vs ! i))
            = (px (vs ! k) - px (vs ! i)) * (px (vs ! (i + half)) - px (vs ! i))
              + (py (vs ! k) - py (vs ! i)) * (py (vs ! (i + half)) - py (vs ! i))"
    and cross: "\<bar>(py (vs ! j) - py (vs ! i)) * (px (vs ! (i + half)) - px (vs ! i))
              - (px (vs ! j) - px (vs ! i)) * (py (vs ! (i + half)) - py (vs ! i))\<bar>
            = \<bar>(py (vs ! k) - py (vs ! i)) * (px (vs ! (i + half)) - px (vs ! i))
              - (px (vs ! k) - px (vs ! i)) * (py (vs ! (i + half)) - py (vs ! i))\<bar>"
  shows "points_really_close
           (abs_y (work_values vs (replicate (length vs) (Suc 0)) half i ! j))
           (abs_y (work_values vs (replicate (length vs) (Suc 0)) half i ! k))"
proof -
  note wj = work_values_ones_formula [OF j i o nz] and wk = work_values_ones_formula [OF k i o nz]
  show ?thesis
    unfolding wj wk points_really_close_iff abs_y_def
    by (simp add: dot cross)
qed


section \<open>The square\<close>

lemma doubled_values_four:
  "doubled_values [a, b, c, d] =
     [a, midval a b, b, midval b c, c, midval c d, d, midval d a]"
proof -
  have "[0..<2 * length [a, b, c, d]] = [0, 1, 2, 3, 4, 5, 6, 7]" by (simp add: upt_rec)
  then show ?thesis unfolding doubled_values_def by simp
qed

lemma doubled_values_Square:
  "doubled_values Square =
     [\<lparr>px = 0, py = 0\<rparr>, \<lparr>px = 0, py = 50\<rparr>, \<lparr>px = 0, py = 100\<rparr>, \<lparr>px = 50, py = 100\<rparr>,
      \<lparr>px = 100, py = 100\<rparr>, \<lparr>px = 100, py = 50\<rparr>, \<lparr>px = 100, py = 0\<rparr>, \<lparr>px = 50, py = 0\<rparr>]"
  by (simp add: Square_def doubled_values_four midval_def)

lemma all_less_4: "(\<forall>m<4::nat. P m) \<longleftrightarrow> P 0 \<and> P 1 \<and> P 2 \<and> P 3"
proof -
  have "m < 4 \<longleftrightarrow> m = 0 \<or> m = 1 \<or> m = 2 \<or> m = 3" for m :: nat by auto
  then show ?thesis by auto
qed

lemma mirror_ok_octagon:
  assumes "length ws = 8"
  shows "mirror_ok ws 4 0 \<longleftrightarrow>
           points_really_close (abs_y (ws ! 0)) (abs_y (ws ! 0)) \<and>
           points_really_close (abs_y (ws ! 7)) (abs_y (ws ! 1)) \<and>
           points_really_close (abs_y (ws ! 6)) (abs_y (ws ! 2)) \<and>
           points_really_close (abs_y (ws ! 5)) (abs_y (ws ! 3))"
    and "mirror_ok ws 4 1 \<longleftrightarrow>
           points_really_close (abs_y (ws ! 1)) (abs_y (ws ! 1)) \<and>
           points_really_close (abs_y (ws ! 0)) (abs_y (ws ! 2)) \<and>
           points_really_close (abs_y (ws ! 7)) (abs_y (ws ! 3)) \<and>
           points_really_close (abs_y (ws ! 6)) (abs_y (ws ! 4))"
    and "mirror_ok ws 4 2 \<longleftrightarrow>
           points_really_close (abs_y (ws ! 2)) (abs_y (ws ! 2)) \<and>
           points_really_close (abs_y (ws ! 1)) (abs_y (ws ! 3)) \<and>
           points_really_close (abs_y (ws ! 0)) (abs_y (ws ! 4)) \<and>
           points_really_close (abs_y (ws ! 7)) (abs_y (ws ! 5))"
    and "mirror_ok ws 4 3 \<longleftrightarrow>
           points_really_close (abs_y (ws ! 3)) (abs_y (ws ! 3)) \<and>
           points_really_close (abs_y (ws ! 2)) (abs_y (ws ! 4)) \<and>
           points_really_close (abs_y (ws ! 1)) (abs_y (ws ! 5)) \<and>
           points_really_close (abs_y (ws ! 0)) (abs_y (ws ! 6))"
  unfolding mirror_ok_def all_less_4 assms by (simp_all add: eval_nat_numeral)

lemma Square_verdicts:
  fixes D :: "Point list"
  defines "D \<equiv> [\<lparr>px = 0, py = 0\<rparr>, \<lparr>px = 0, py = 50\<rparr>, \<lparr>px = 0, py = 100\<rparr>, \<lparr>px = 50, py = 100\<rparr>,
      \<lparr>px = 100, py = 100\<rparr>, \<lparr>px = 100, py = 50\<rparr>, \<lparr>px = 100, py = 0\<rparr>, \<lparr>px = 50, py = 0\<rparr>]"
  shows "verdict D (replicate (length D) (Suc 0)) 4 0"
    and "verdict D (replicate (length D) (Suc 0)) 4 1"
    and "verdict D (replicate (length D) (Suc 0)) 4 2"
    and "verdict D (replicate (length D) (Suc 0)) 4 3"
proof -
  let ?W = "\<lambda>i. work_values D (replicate (length D) (Suc 0)) 4 i"
  have len: "length D = 8" by (simp add: D_def)
  have lw: "length (?W i) = 8" for i by (simp add: length_work_values len)
  have p071: "points_really_close (abs_y (?W 0 ! 7)) (abs_y (?W 0 ! 1))"
    by (rule pair_symmetric) (simp_all add: D_def)
  have p062: "points_really_close (abs_y (?W 0 ! 6)) (abs_y (?W 0 ! 2))"
    by (rule pair_symmetric) (simp_all add: D_def)
  have p053: "points_really_close (abs_y (?W 0 ! 5)) (abs_y (?W 0 ! 3))"
    by (rule pair_symmetric) (simp_all add: D_def)
  have p102: "points_really_close (abs_y (?W 1 ! 0)) (abs_y (?W 1 ! 2))"
    by (rule pair_symmetric) (simp_all add: D_def)
  have p173: "points_really_close (abs_y (?W 1 ! 7)) (abs_y (?W 1 ! 3))"
    by (rule pair_symmetric) (simp_all add: D_def)
  have p164: "points_really_close (abs_y (?W 1 ! 6)) (abs_y (?W 1 ! 4))"
    by (rule pair_symmetric) (simp_all add: D_def)
  have p213: "points_really_close (abs_y (?W 2 ! 1)) (abs_y (?W 2 ! 3))"
    by (rule pair_symmetric) (simp_all add: D_def)
  have p204: "points_really_close (abs_y (?W 2 ! 0)) (abs_y (?W 2 ! 4))"
    by (rule pair_symmetric) (simp_all add: D_def)
  have p275: "points_really_close (abs_y (?W 2 ! 7)) (abs_y (?W 2 ! 5))"
    by (rule pair_symmetric) (simp_all add: D_def)
  have p324: "points_really_close (abs_y (?W 3 ! 2)) (abs_y (?W 3 ! 4))"
    by (rule pair_symmetric) (simp_all add: D_def)
  have p315: "points_really_close (abs_y (?W 3 ! 1)) (abs_y (?W 3 ! 5))"
    by (rule pair_symmetric) (simp_all add: D_def)
  have p306: "points_really_close (abs_y (?W 3 ! 0)) (abs_y (?W 3 ! 6))"
    by (rule pair_symmetric) (simp_all add: D_def)
  show "verdict D (replicate (length D) (Suc 0)) 4 0"
    unfolding verdict_def mirror_ok_octagon [OF lw]
    using p071 p062 p053 points_really_close_refl by blast
  show "verdict D (replicate (length D) (Suc 0)) 4 1"
    unfolding verdict_def mirror_ok_octagon [OF lw]
    using p102 p173 p164 points_really_close_refl by blast
  show "verdict D (replicate (length D) (Suc 0)) 4 2"
    unfolding verdict_def mirror_ok_octagon [OF lw]
    using p213 p204 p275 points_really_close_refl by blast
  show "verdict D (replicate (length D) (Suc 0)) 4 3"
    unfolding verdict_def mirror_ok_octagon [OF lw]
    using p324 p315 p306 points_really_close_refl by blast
qed

text \<open>
  Claim C7. For the square \<open>(0,0), (0,100), (100,100), (100,0)\<close> the detector returns exactly
  four axes: the two diagonals, through opposite vertices, and the two lines through the
  midpoints of opposite edges.
\<close>

theorem square_four_axes:
  "detect cb Square =
     Inr [(\<lparr>px = 0, py = 0\<rparr>, \<lparr>px = 100, py = 100\<rparr>),
          (\<lparr>px = 0, py = 50\<rparr>, \<lparr>px = 100, py = 50\<rparr>),
          (\<lparr>px = 0, py = 100\<rparr>, \<lparr>px = 100, py = 0\<rparr>),
          (\<lparr>px = 50, py = 100\<rparr>, \<lparr>px = 50, py = 0\<rparr>)]"
proof -
  let ?D = "doubled_values Square"
  have len: "length Square = 4" by (simp add: Square_def)
  have ones: "replicate (2 * length Square) (Suc 0) = replicate (length ?D) (Suc 0)"
    by (simp add: length_doubled_values)
  have v: "verdict ?D (replicate (2 * length Square) (Suc 0)) 4 0"
    "verdict ?D (replicate (2 * length Square) (Suc 0)) 4 1"
    "verdict ?D (replicate (2 * length Square) (Suc 0)) 4 2"
    "verdict ?D (replicate (2 * length Square) (Suc 0)) 4 3"
    unfolding ones unfolding doubled_values_Square by (rule Square_verdicts)+
  have idx: "[0..<4] = [0, 1, 2, 3::nat]" by (simp add: upt_rec)
  have "filter (verdict ?D (replicate (2 * length Square) (Suc 0)) 4) [0..<4] = [0, 1, 2, 3]"
    unfolding idx using v by simp
  then have "detect cb Square = Inr (map (\<lambda>i. (?D ! i, ?D ! (i + 4))) [0, 1, 2, 3])"
    using detect_eq [of cb Square] by (simp only: len)
  then show ?thesis by (simp add: doubled_values_Square)
qed





theorem confirmed_axes_witness:
  "set [0] \<subseteq> {..<length [\<lparr>px = 3, py = 4\<rparr>]} \<and>
   (\<exists>st. get_lines_of_symmetry
           \<lparr>original_callback = False, translate_callback = False, rotate_callback = False,
            symmetry_callback = True\<rparr> [\<lparr>px = 3, py = 4\<rparr>] [0] = Inr st \<and>
         symmetries st = [(0, 1)] \<and> trace st = [Symmetry_call 0 0 1] \<and>
         heap st ! 0 = \<lparr>px = 3, py = 4\<rparr> \<and> heap st ! 1 = \<lparr>px = 3, py = 4\<rparr>)"
proof -
  let ?h = "[\<lparr>px = 3, py = 4\<rparr>]"
  let ?cb = "\<lparr>original_callback = False, translate_callback = False, rotate_callback = False,
            symmetry_callback = True\<rparr>"
  have valid: "\<forall>r\<in>set [0]. r < length ?h" by simp
  from confirmed_axes [OF valid, where cb = ?cb]
  obtain d h1 st where dp: "double_points ?h [0] = Inr (d, h1)"
    and run: "get_lines_of_symmetry ?cb ?h [0] = Inr st"
    and sym: "symmetries st =
       map (\<lambda>i. (d ! i, d ! (i + length d div 2))) (filter (accepted h1 d) [0..<length d div 2])"
    and tr: "filter is_symmetry_call (trace st) =
       (if symmetry_callback ?cb
        then map (\<lambda>i. Symmetry_call i (d ! i) (d ! (i + length d div 2)))
               (filter (accepted h1 d) [0..<length d div 2])
        else [])"
    and same: "\<forall>r\<in>set d. r < length h1 \<and> heap st ! r = h1 ! r"
    by blast
  have d: "d = [0, 1]" and h1: "h1 = [\<lparr>px = 3, py = 4\<rparr>, \<lparr>px = 3, py = 4\<rparr>]"
    using dp double_points_eq [OF valid]
    by (simp_all add: doubled_refs_one mid_cells_def midval_def)
  have dvalid: "\<forall>r\<in>set d. r < length h1" by (simp add: d h1)
  have "accepted h1 d 0"
    using accepted_eq [OF dvalid, of 0] by (simp add: d verdict_one_point)
  then have ok: "filter (accepted h1 d) [0..<length d div 2] = [0]" by (simp add: d)
  have trace_all: "filter is_symmetry_call (trace st) = trace st"
    using get_lines_of_symmetry_eq [OF valid, of ?cb] run
    by (auto simp: candidate_events_def prepare_events_def)
  from run sym tr same show ?thesis
    unfolding ok trace_all by (simp add: d h1)
qed


section \<open>Offsetting and rotating the polygon\<close>













end
